theory Spec2Isabelle
  imports Complex_Main "HOL-Library.Char_ord" "HOL-Library.List_Lexorder"
    "HOL-Library.Product_Lexorder"
begin

unbundle bit_operations_syntax

section \<open>Schedule masks\<close>

text \<open>
  Python integers are unbounded, so a mask is an \<open>int\<close>. The day index is a \<open>nat\<close>:
  every caller passes \<open>date.weekday()\<close> or an element of \<open>range(7)\<close>, and a negative
  shift count (which raises ValueError in Python) is outside the type.
\<close>

definition mask_has_day :: "int \<Rightarrow> nat \<Rightarrow> bool" where
  "mask_has_day msk day_idx_0_mon = ((drop_bit day_idx_0_mon msk AND 1) = 1)"

definition set_mask_day :: "int \<Rightarrow> nat \<Rightarrow> bool \<Rightarrow> int" where
  "set_mask_day msk day_idx_0_mon v =
     (let b = push_bit day_idx_0_mon 1 in if v then msk OR b else msk AND NOT b)"

definition full_week_mask :: int where
  "full_week_mask = push_bit 7 1 - 1"

section \<open>Strings\<close>

text \<open>
  Strings are lists of 8-bit characters, read as code points below 256. \<open>is_space\<close> lists
  the code points in that range that Python's \<open>str.strip()\<close> removes.
\<close>

definition is_space :: "char \<Rightarrow> bool" where
  "is_space c = ((of_char c :: nat) \<in> set [9, 10, 11, 12, 13, 28, 29, 30, 31, 32, 133, 160])"

definition strip :: "string \<Rightarrow> string" where
  "strip s = rev (dropWhile is_space (rev (dropWhile is_space s)))"

definition ascii_lower :: "char \<Rightarrow> char" where
  "ascii_lower c =
     (let n = (of_char c :: nat) in if 65 \<le> n \<and> n \<le> 90 then char_of (n + 32) else c)"

section \<open>Calendar dates\<close>

text \<open>
  A \<open>datetime.date\<close> is its proleptic Gregorian ordinal (\<open>date.toordinal()\<close>):
  0001-01-01 is 1, a Monday, and 9999-12-31 is 3652059. Adding a \<open>timedelta\<close> that leaves
  this range raises OverflowError.
\<close>

type_synonym date = int

datatype error = OverflowError | IntegrityError | ValueError | OSError | DatabaseError

definition max_ordinal :: int where
  "max_ordinal = 3652059"

definition date_plus_days :: "date \<Rightarrow> int \<Rightarrow> error + date" where
  "date_plus_days d n =
     (let r = d + n in if r < 1 \<or> max_ordinal < r then Inl OverflowError else Inr r)"

definition date_minus_days :: "date \<Rightarrow> int \<Rightarrow> error + date" where
  "date_minus_days d n = date_plus_days d (- n)"

definition weekday :: "date \<Rightarrow> nat" where
  "weekday d = nat ((d + 6) mod 7)"

text \<open>
  \<open>monday\<close> subtracts the weekday. For a date in range the result is in range as well
  (ordinal 1 is itself a Monday, see \<open>monday_in_range\<close> below), so the subtraction never raises
  and is written without the error branch.
\<close>

definition monday :: "date \<Rightarrow> date" where
  "monday d = d - int (weekday d)"

definition days_before_month :: "int list" where
  "days_before_month = [-1, 0, 31, 59, 90, 120, 151, 181, 212, 243, 273, 304, 334]"

definition days_in_month :: "int list" where
  "days_in_month = [-1, 31, 28, 31, 30, 31, 30, 31, 31, 30, 31, 30, 31]"

definition ord2ymd :: "int \<Rightarrow> int \<times> int \<times> int" where
  "ord2ymd n0 =
     (let n = n0 - 1;
          n400 = n div 146097; n = n mod 146097;
          n100 = n div 36524; n = n mod 36524;
          n4 = n div 1461; n = n mod 1461;
          n1 = n div 365; n = n mod 365;
          year = n400 * 400 + 1 + n100 * 100 + n4 * 4 + n1
      in if n1 = 4 \<or> n100 = 4 then (year - 1, 12, 31)
         else
           let leapyear = (n1 = 3 \<and> (n4 \<noteq> 24 \<or> n100 = 3));
               month = (n + 50) div 32;
               preceding = days_before_month ! nat month + (if 2 < month \<and> leapyear then 1 else 0)
           in if n < preceding
              then
                let month = month - 1;
                    preceding = preceding
                      - (days_in_month ! nat month + (if month = 2 \<and> leapyear then 1 else 0))
                in (year, month, n - preceding + 1)
              else (year, month, n - preceding + 1))"

fun digits :: "nat \<Rightarrow> nat \<Rightarrow> string" where
  "digits 0 n = []"
| "digits (Suc w) n = digits w (n div 10) @ [char_of (48 + n mod 10)]"

text \<open>\<open>date.isoformat()\<close>: \<open>YYYY-MM-DD\<close>, zero padded (the year of a date has at most 4 digits).\<close>

definition isoformat :: "date \<Rightarrow> string" where
  "isoformat d =
     (case ord2ymd d of (y, m, dd) \<Rightarrow>
        digits 4 (nat y) @ ''-'' @ digits 2 (nat m) @ ''-'' @ digits 2 (nat dd))"

text \<open>
  The generator \<open>daterange\<close>: the days it yields, and the error it raises after the last of
  them when stepping past it leaves the range of dates.
\<close>

function daterange :: "date \<Rightarrow> date \<Rightarrow> date list \<times> error option" where
  "daterange d1 d2 =
     (if d1 \<le> d2
      then (case date_plus_days d1 1 of
              Inl e \<Rightarrow> ([d1], Some e)
            | Inr d' \<Rightarrow> (case daterange d' d2 of (ds, r) \<Rightarrow> (d1 # ds, r)))
      else ([], None))"
  by pat_completeness auto
termination
  by (relation "measure (\<lambda>(d1, d2). nat (d2 + 1 - d1))")
     (auto simp: date_plus_days_def Let_def split: if_splits)

declare daterange.simps [simp del]

section \<open>The store\<close>

text \<open>
  The two tables of the SQLite file, rows in rowid order, and the \<open>sqlite_sequence\<close> counter
  behind \<open>AUTOINCREMENT\<close>. Every connection goes through \<open>db_connect\<close>, which turns foreign
  keys on, so the cascade and the foreign-key check on insert are part of each operation.
  The integers held in the rows are modelled unbounded; the 64-bit limit of SQLite is
  modelled where an operation binds an integer that it is given (see \<open>in_int64\<close> below).
\<close>

record activity =
  a_id :: int
  a_name :: string
  a_mandatory :: int
  a_days_mask :: int
  a_sort_order :: int

record completion =
  c_activity_id :: int
  c_day :: string
  c_done :: int

record db =
  activities :: "activity list"
  completions :: "completion list"
  seq :: int

text \<open>
  An integer that is bound to a parameter of a statement must fit SQLite's 64-bit signed
  \<open>INTEGER\<close>; otherwise the binding raises OverflowError, which no operation catches.
\<close>

definition in_int64 :: "int \<Rightarrow> bool" where
  "in_int64 n = (- (2 ^ 63) \<le> n \<and> n < 2 ^ 63)"

definition db_init_fresh :: db where
  "db_init_fresh = \<lparr>activities = [], completions = [], seq = 0\<rparr>"

text \<open>\<open>ORDER BY sort_order ASC, name COLLATE NOCASE\<close>; rows that tie stay in rowid order.\<close>

definition db_list_activities :: "db \<Rightarrow> (int \<times> string \<times> int \<times> int) list" where
  "db_list_activities S =
     map (\<lambda>a. (a_id a, a_name a, a_mandatory a, a_days_mask a))
       (sort_key (\<lambda>a. (a_sort_order a, map ascii_lower (a_name a))) (activities S))"

definition db_count_activities :: "db \<Rightarrow> int" where
  "db_count_activities S = int (length (activities S))"

definition db_any_mandatory_exists :: "db \<Rightarrow> bool" where
  "db_any_mandatory_exists S = list_ex (\<lambda>a. a_mandatory a = 1) (activities S)"

definition max_sort_order :: "db \<Rightarrow> int" where
  "max_sort_order S = (case map a_sort_order (activities S) of [] \<Rightarrow> 0 | x # xs \<Rightarrow> fold max xs x)"

definition next_rowid :: "db \<Rightarrow> int" where
  "next_rowid S = fold max (map a_id (activities S)) (seq S) + 1"

text \<open>
  The \<open>INSERT\<close> fails on the \<open>UNIQUE\<close> index of \<open>name\<close> (declared \<open>name TEXT UNIQUE NOT NULL\<close>,
  so with the default binary collation) exactly when a row holds the same characters.
\<close>

definition db_add_activity :: "string \<Rightarrow> db \<Rightarrow> (bool \<times> string) \<times> db" where
  "db_add_activity name0 S =
     (let name = strip name0 in
      if name = [] then ((False, ''empty''), S)
      else
        let max_order = max_sort_order S in
        if name \<in> set (map a_name (activities S)) then ((False, ''exists''), S)
        else
          let rid = next_rowid S;
              row = \<lparr>a_id = rid, a_name = name, a_mandatory = 0,
                     a_days_mask = full_week_mask, a_sort_order = max_order + 1\<rparr>
          in ((True, []), S\<lparr>activities := activities S @ [row], seq := rid\<rparr>))"

text \<open>
  \<open>UPDATE activities SET name=? WHERE id=?\<close>: binding an id outside 64 bits raises
  OverflowError, which \<open>except sqlite3.IntegrityError\<close> does not catch. \<open>id\<close> is the primary
  key, so at most one row is touched; the statement fails on the \<open>UNIQUE\<close> index when that
  row would take the name of another row.
\<close>

definition db_rename_activity ::
  "int \<Rightarrow> string \<Rightarrow> db \<Rightarrow> error + (bool \<times> string) \<times> db" where
  "db_rename_activity activity_id new_name0 S =
     (let new_name = strip new_name0 in
      if new_name = [] then Inr ((False, ''empty''), S)
      else if \<not> in_int64 activity_id then Inl OverflowError
      else if list_ex (\<lambda>a. a_id a = activity_id) (activities S)
              \<and> list_ex (\<lambda>b. a_id b \<noteq> activity_id \<and> a_name b = new_name) (activities S)
      then Inr ((False, ''exists''), S)
      else Inr ((True, []),
            S\<lparr>activities :=
                map (\<lambda>a. if a_id a = activity_id then a\<lparr>a_name := new_name\<rparr> else a)
                  (activities S)\<rparr>))"

fun set_orders_from :: "int \<Rightarrow> int list \<Rightarrow> activity list \<Rightarrow> activity list" where
  "set_orders_from i [] acts = acts"
| "set_orders_from i (aid # rest) acts =
     set_orders_from (i + 1) rest
       (map (\<lambda>a. if a_id a = aid then a\<lparr>a_sort_order := i\<rparr> else a) acts)"

text \<open>
  The updates are committed after the loop: when binding one of the ids raises, none of them
  is kept.
\<close>

definition db_set_sort_orders :: "int list \<Rightarrow> db \<Rightarrow> error + db" where
  "db_set_sort_orders ordered_ids S =
     (if list_all in_int64 ordered_ids
      then Inr (S\<lparr>activities := set_orders_from 1 ordered_ids (activities S)\<rparr>)
      else Inl OverflowError)"

text \<open>
  \<open>DELETE FROM activities WHERE id=?\<close> with \<open>ON DELETE CASCADE\<close>: the completions of the
  rows that are deleted go with them. (For an id outside 64 bits the real call raises
  OverflowError and deletes nothing; no row of a real store has such an id, and the model
  then deletes nothing here either.)
\<close>

definition db_delete_activity :: "int \<Rightarrow> db \<Rightarrow> db" where
  "db_delete_activity activity_id S =
     (let gone = map a_id (filter (\<lambda>a. a_id a = activity_id) (activities S)) in
      S\<lparr>activities := filter (\<lambda>a. a_id a \<noteq> activity_id) (activities S),
        completions := filter (\<lambda>c. c_activity_id c \<notin> set gone) (completions S)\<rparr>)"

definition db_clear_all :: "db \<Rightarrow> db" where
  "db_clear_all S = S\<lparr>activities := [], completions := []\<rparr>"

text \<open>
  The partial update: nothing is done (and nothing bound) when neither value is given.
  Otherwise the values and the id are bound, and a row that is updated must satisfy
  \<open>CHECK(mandatory IN (0,1))\<close>; the IntegrityError is not caught and nothing is committed.
\<close>

definition db_update_activity :: "int \<Rightarrow> int option \<Rightarrow> int option \<Rightarrow> db \<Rightarrow> error + db" where
  "db_update_activity activity_id mand dmask S =
     (if mand = None \<and> dmask = None then Inr S
      else if \<not> in_int64 activity_id
              \<or> (case mand of None \<Rightarrow> False | Some m \<Rightarrow> \<not> in_int64 m)
              \<or> (case dmask of None \<Rightarrow> False | Some k \<Rightarrow> \<not> in_int64 k)
      then Inl OverflowError
      else if (case mand of None \<Rightarrow> False | Some m \<Rightarrow> m \<noteq> 0 \<and> m \<noteq> 1)
              \<and> list_ex (\<lambda>a. a_id a = activity_id) (activities S)
      then Inl IntegrityError
      else Inr (S\<lparr>activities :=
        map (\<lambda>a. if a_id a = activity_id
                 then a\<lparr>a_mandatory := (case mand of None \<Rightarrow> a_mandatory a | Some m \<Rightarrow> m),
                        a_days_mask := (case dmask of None \<Rightarrow> a_days_mask a | Some k \<Rightarrow> k)\<rparr>
                 else a)
          (activities S)\<rparr>))"

text \<open>
  The lookup of one completion. Its callers pass ids that they have read from the store, so
  the binding of an id outside 64 bits is not modelled here.
\<close>

definition db_get_done :: "int \<Rightarrow> string \<Rightarrow> db \<Rightarrow> int" where
  "db_get_done activity_id day_iso S =
     (case find (\<lambda>c. c_activity_id c = activity_id \<and> c_day c = day_iso) (completions S) of
        Some c \<Rightarrow> c_done c
      | None \<Rightarrow> 0)"

text \<open>
  The upsert. Binding an id or a value outside 64 bits raises OverflowError; the insert is
  refused (IntegrityError) when the activity does not exist or when \<open>done\<close> is neither 0
  nor 1. The callers catch neither.
\<close>

definition db_set_done :: "int \<Rightarrow> string \<Rightarrow> int \<Rightarrow> db \<Rightarrow> error + db" where
  "db_set_done activity_id day_iso dn S =
     (if \<not> in_int64 activity_id \<or> \<not> in_int64 dn then Inl OverflowError
      else if (dn \<noteq> 0 \<and> dn \<noteq> 1) \<or> activity_id \<notin> set (map a_id (activities S))
      then Inl IntegrityError
      else if list_ex (\<lambda>c. c_activity_id c = activity_id \<and> c_day c = day_iso) (completions S)
      then Inr (S\<lparr>completions :=
                  map (\<lambda>c. if c_activity_id c = activity_id \<and> c_day c = day_iso
                           then c\<lparr>c_done := dn\<rparr> else c) (completions S)\<rparr>)
      else Inr (S\<lparr>completions := completions S
                  @ [\<lparr>c_activity_id = activity_id, c_day = day_iso, c_done = dn\<rparr>]\<rparr>))"

text \<open>The dictionary built from the selected rows; a later row would override an earlier one.\<close>

definition db_bulk_done_map :: "string \<Rightarrow> string \<Rightarrow> db \<Rightarrow> (int \<times> string \<rightharpoonup> int)" where
  "db_bulk_done_map start_iso end_iso S =
     map_of (rev (map (\<lambda>c. ((c_activity_id c, c_day c), c_done c))
       (filter (\<lambda>c. start_iso \<le> c_day c \<and> c_day c \<le> end_iso) (completions S))))"

section \<open>The streak\<close>

definition day_is_success_for_streak :: "db \<Rightarrow> date \<Rightarrow> bool" where
  "day_is_success_for_streak S dy =
     (let acts = db_list_activities S;
          day_idx = weekday dy;
          required = map fst
            (filter (\<lambda>(aid, _, mand, dmask). mand = 1 \<and> mask_has_day dmask day_idx) acts)
      in if required = [] then True
         else let iso = isoformat dy in list_all (\<lambda>aid. db_get_done aid iso S = 1) required)"

text \<open>
  The variables of the loop of \<open>calc_streak_upto\<close>. \<open>w_iters\<close> is not in the source: it
  counts the executions of the loop body, for the statements about the number of iterations.
\<close>

record walk =
  w_streak :: int
  w_d :: date
  w_current_week :: date
  w_misses :: int
  w_iters :: nat

datatype step = Break walk | Raise error | Next walk

definition step_back :: "walk \<Rightarrow> step" where
  "step_back st =
     (case date_minus_days (w_d st) 1 of Inl e \<Rightarrow> Raise e | Inr d' \<Rightarrow> Next (st\<lparr>w_d := d'\<rparr>))"

text \<open>One execution of the loop body, up to and including \<open>d -= timedelta(days=1)\<close>.\<close>

definition streak_body :: "db \<Rightarrow> int \<Rightarrow> walk \<Rightarrow> step" where
  "streak_body S allowed st0 =
     (let w = monday (w_d st0);
          st1 = (if w \<noteq> w_current_week st0 then st0\<lparr>w_current_week := w, w_misses := 0\<rparr> else st0);
          st = st1\<lparr>w_iters := Suc (w_iters st1)\<rparr>;
          ok = day_is_success_for_streak S (w_d st)
      in if ok then step_back (st\<lparr>w_streak := w_streak st + 1\<rparr>)
         else
           let st = st\<lparr>w_misses := w_misses st + 1\<rparr> in
           if allowed < w_misses st then Break st
           else step_back (st\<lparr>w_streak := w_streak st + 1\<rparr>))"

function streak_loop :: "db \<Rightarrow> int \<Rightarrow> walk \<Rightarrow> error + walk" where
  "streak_loop S allowed st =
     (case streak_body S allowed st of
        Break st' \<Rightarrow> Inr st'
      | Raise e \<Rightarrow> Inl e
      | Next st' \<Rightarrow> if 3650 < w_streak st' then Inr st' else streak_loop S allowed st')"
  by pat_completeness auto
termination
  by (relation "measure (\<lambda>(S, allowed, st). nat (3651 - w_streak st))")
     (auto simp: streak_body_def step_back_def Let_def split: if_splits sum.splits)

declare streak_loop.simps [simp del]

text \<open>\<open>calc_streak_upto\<close> with the number of loop iterations next to the streak.\<close>

definition calc_streak_walk :: "db \<Rightarrow> date \<Rightarrow> int \<Rightarrow> error + int \<times> nat" where
  "calc_streak_walk S today allowed_misses_per_week =
     (if \<not> db_any_mandatory_exists S then Inr (0, 0)
      else
        (case streak_loop S allowed_misses_per_week
                \<lparr>w_streak = 0, w_d = today, w_current_week = monday today,
                 w_misses = 0, w_iters = 0\<rparr> of
           Inl e \<Rightarrow> Inl e
         | Inr st \<Rightarrow> Inr (w_streak st, w_iters st)))"

definition calc_streak_upto :: "db \<Rightarrow> date \<Rightarrow> int \<Rightarrow> error + int" where
  "calc_streak_upto S today allowed_misses_per_week =
     (case calc_streak_walk S today allowed_misses_per_week of
        Inl e \<Rightarrow> Inl e
      | Inr (n, k) \<Rightarrow> Inr n)"

section \<open>The streak, stated over the days walked\<close>

text \<open>
  These definitions follow the description of the streak, not the loop. Day \<open>j\<close> of a walk
  from \<open>today\<close> is the date \<open>today - j\<close>. \<open>week_misses S today k\<close> counts the unsuccessful
  days among day 0 to day \<open>k\<close> that lie in the Monday-aligned week of day \<open>k\<close>; day \<open>k\<close> is
  over budget when it is unsuccessful and that count exceeds the allowance.
\<close>

definition week_misses :: "db \<Rightarrow> date \<Rightarrow> nat \<Rightarrow> nat" where
  "week_misses S today k =
     length (filter (\<lambda>j. monday (today - int j) = monday (today - int k)
                          \<and> \<not> day_is_success_for_streak S (today - int j)) [0..<Suc k])"

definition over_budget :: "db \<Rightarrow> date \<Rightarrow> int \<Rightarrow> nat \<Rightarrow> bool" where
  "over_budget S today allowed k =
     (\<not> day_is_success_for_streak S (today - int k) \<and> allowed < int (week_misses S today k))"

text \<open>The unsuccessful days before day \<open>i\<close> in the week of day \<open>i\<close>.\<close>

definition prior_misses :: "db \<Rightarrow> date \<Rightarrow> nat \<Rightarrow> nat" where
  "prior_misses S today i =
     length (filter (\<lambda>j. monday (today - int j) = monday (today - int i)
                          \<and> \<not> day_is_success_for_streak S (today - int j)) [0..<i])"

text \<open>The loop variables on entry to iteration \<open>i\<close> of a walk that has not stopped before.\<close>

definition walk_at :: "db \<Rightarrow> date \<Rightarrow> nat \<Rightarrow> walk" where
  "walk_at S today i =
     \<lparr>w_streak = int i, w_d = today - int i,
      w_current_week = (if i = 0 then monday today else monday (today - int (i - 1))),
      w_misses = (if i = 0 then 0 else int (week_misses S today (i - 1))),
      w_iters = i\<rparr>"

section \<open>Example stores\<close>

text \<open>One mandatory activity that is scheduled on no weekday: every day succeeds vacuously.\<close>

definition never_scheduled_db :: db where
  "never_scheduled_db =
     \<lparr>activities = [\<lparr>a_id = 1, a_name = ''Run'', a_mandatory = 1, a_days_mask = 0, a_sort_order = 1\<rparr>],
      completions = [], seq = 1\<rparr>"

text \<open>
  One mandatory activity scheduled every day, done on Monday 2024-01-01 (ordinal 738886) only,
  and one optional activity.
\<close>

definition demo_db :: db where
  "demo_db =
     \<lparr>activities =
        [\<lparr>a_id = 1, a_name = ''Run'', a_mandatory = 1, a_days_mask = 127, a_sort_order = 1\<rparr>,
         \<lparr>a_id = 2, a_name = ''Read'', a_mandatory = 0, a_days_mask = 5, a_sort_order = 2\<rparr>],
      completions =
        [\<lparr>c_activity_id = 1, c_day = ''2024-01-01'', c_done = 1\<rparr>,
         \<lparr>c_activity_id = 2, c_day = ''2024-01-03'', c_done = 1\<rparr>],
      seq = 2\<rparr>"

text \<open>The first row of \<open>demo_db\<close>.\<close>

definition run_row :: activity where
  "run_row = \<lparr>a_id = 1, a_name = ''Run'', a_mandatory = 1, a_days_mask = 127, a_sort_order = 1\<rparr>"

text \<open>Two optional activities, no mandatory one.\<close>

definition optional_db :: db where
  "optional_db =
     \<lparr>activities =
        [\<lparr>a_id = 1, a_name = ''Run'', a_mandatory = 0, a_days_mask = 127, a_sort_order = 1\<rparr>,
         \<lparr>a_id = 2, a_name = ''Read'', a_mandatory = 0, a_days_mask = 5, a_sort_order = 2\<rparr>],
      completions = [\<lparr>c_activity_id = 1, c_day = ''2024-01-01'', c_done = 1\<rparr>],
      seq = 2\<rparr>"

section \<open>Names and referential integrity, as the description has them\<close>

text \<open>
  Equality of two names after trimming and ASCII case folding: the comparison the
  description of \<open>add_activity\<close> speaks of. The store itself never compares names this way.
\<close>

definition same_name_ci :: "string \<Rightarrow> string \<Rightarrow> bool" where
  "same_name_ci a b = (map ascii_lower (strip a) = map ascii_lower (strip b))"

text \<open>Every completion row belongs to a stored activity (the foreign key of \<open>completions\<close>).\<close>

definition fk_ok :: "db \<Rightarrow> bool" where
  "fk_ok S = list_all (\<lambda>c. c_activity_id c \<in> set (map a_id (activities S))) (completions S)"

section \<open>Statistics\<close>

text \<open>
  The inner loop of \<open>_calc_range_stats\<close> over the days of the range, for one activity:
  the counters \<open>planned\<close> and \<open>done\<close> and the shared list \<open>day_done\<close>.
\<close>

fun stats_days ::
  "(int \<times> string \<rightharpoonup> int) \<Rightarrow> int \<Rightarrow> int \<Rightarrow> date list \<Rightarrow> int \<times> int \<times> int list
     \<Rightarrow> int \<times> int \<times> int list" where
  "stats_days done_map aid dmask [] acc = acc"
| "stats_days done_map aid dmask (d # ds) (planned, dn, day_done) =
     (let idx = weekday d in
      if mask_has_day dmask idx
      then
        if (case done_map (aid, isoformat d) of None \<Rightarrow> 0 | Some v \<Rightarrow> v) = 1
        then stats_days done_map aid dmask ds
               (planned + 1, dn + 1, day_done[idx := day_done ! idx + 1])
        else stats_days done_map aid dmask ds (planned + 1, dn, day_done)
      else stats_days done_map aid dmask ds (planned, dn, day_done))"

text \<open>
  The outer loop over the activities. When the generator raises after its last day, the
  exception leaves \<open>_calc_range_stats\<close> during the first activity.
\<close>

fun stats_acts ::
  "(int \<times> string \<rightharpoonup> int) \<Rightarrow> date \<Rightarrow> date \<Rightarrow> (int \<times> string \<times> int \<times> int) list
     \<Rightarrow> (string \<times> int \<times> int) list \<times> int list
     \<Rightarrow> error + (string \<times> int \<times> int) list \<times> int list" where
  "stats_acts done_map start_d end_d [] acc = Inr acc"
| "stats_acts done_map start_d end_d ((aid, name, mand, dmask) # rest) (per_act, day_done) =
     (case daterange start_d end_d of
        (days, raised) \<Rightarrow>
          (case stats_days done_map aid dmask days (0, 0, day_done) of
             (planned, dn, day_done') \<Rightarrow>
               (case raised of
                  Some e \<Rightarrow> Inl e
                | None \<Rightarrow>
                    stats_acts done_map start_d end_d rest
                      (per_act @ [(name, planned, dn)], day_done'))))"

definition calc_range_stats ::
  "db \<Rightarrow> date \<Rightarrow> date \<Rightarrow> error + (string \<times> int \<times> int) list \<times> int list" where
  "calc_range_stats S start_d end_d =
     stats_acts (db_bulk_done_map (isoformat start_d) (isoformat end_d) S) start_d end_d
       (db_list_activities S) ([], replicate 7 0)"

subsection \<open>Percentages\<close>

text \<open>
  \<open>int(round((d / p) * 100))\<close> is computed in binary64 floating point. A float is modelled by
  the rational number it denotes: \<open>to_double\<close> rounds a rational to the nearest number with
  a 53-bit significand, ties to even, as IEEE 754 division and multiplication do (the values
  here lie between \<open>2 ^ -22\<close> and 100, far from overflow and from subnormal numbers), and
  \<open>round_half_even\<close> is Python's \<open>round\<close> of a float to an integer.
\<close>

definition round_half_even :: "rat \<Rightarrow> int" where
  "round_half_even q =
     (let f = \<lfloor>q\<rfloor>; r = q - of_int f
      in if r < 1 / 2 then f else if 1 / 2 < r then f + 1 else if even f then f else f + 1)"

definition pow2 :: "int \<Rightarrow> rat" where
  "pow2 e = (if 0 \<le> e then 2 ^ nat e else 1 / 2 ^ nat (- e))"

text \<open>The number of binary digits of a positive integer.\<close>

function bit_length :: "int \<Rightarrow> int" where
  "bit_length n = (if n \<le> 0 then 0 else bit_length (n div 2) + 1)"
  by pat_completeness auto
termination
  by (relation "measure nat") auto

declare bit_length.simps [simp del]

text \<open>\<open>ilog2 q\<close> is the integer \<open>e\<close> with \<open>2 ^ e \<le> q < 2 ^ (e + 1)\<close>, for positive \<open>q\<close>.\<close>

definition ilog2 :: "rat \<Rightarrow> int" where
  "ilog2 q =
     (case quotient_of q of
        (a, b) \<Rightarrow>
          let e0 = bit_length a - bit_length b
          in if pow2 e0 \<le> q then e0 else e0 - 1)"

definition to_double :: "rat \<Rightarrow> rat" where
  "to_double q =
     (if q = 0 then 0
      else
        let e = ilog2 \<bar>q\<bar> - 52
        in sgn q * of_int (round_half_even (\<bar>q\<bar> / pow2 e)) * pow2 e)"

definition float_div :: "int \<Rightarrow> int \<Rightarrow> rat" where
  "float_div a b = to_double (of_int a / of_int b)"

definition float_mul :: "rat \<Rightarrow> rat \<Rightarrow> rat" where
  "float_mul x y = to_double (x * y)"

text \<open>\<open>int(round((d / p) * 100)) if p else 0\<close>\<close>

definition pct :: "int \<Rightarrow> int \<Rightarrow> int" where
  "pct p d = (if p \<noteq> 0 then round_half_even (float_mul (float_div d p) 100) else 0)"

subsection \<open>The statistics tab\<close>

text \<open>\<open>{n: (p, d) for n, p, d in acts}\<close>: a later entry of the same name would win.\<close>

definition dict_of :: "(string \<times> int \<times> int) list \<Rightarrow> (string \<rightharpoonup> int \<times> int)" where
  "dict_of acts = map_of (rev acts)"

text \<open>
  The three cells that \<open>load_data\<close> shows for the row of name \<open>n\<close> and one window: planned,
  done and the percentage. (The order of the rows is not modelled.)
\<close>

definition stats_cells :: "(string \<rightharpoonup> int \<times> int) \<Rightarrow> string \<Rightarrow> int \<times> int \<times> int" where
  "stats_cells m n = (case (case m n of None \<Rightarrow> (0, 0) | Some v \<Rightarrow> v) of (p, d) \<Rightarrow> (p, d, pct p d))"

text \<open>\<open>max\<close> and \<open>list.index\<close> of Python, which raise ValueError on an empty list and on a
  missing value.\<close>

fun py_max :: "int list \<Rightarrow> error + int" where
  "py_max [] = Inl ValueError"
| "py_max (x # xs) = Inr (fold max xs x)"

fun py_index :: "int list \<Rightarrow> int \<Rightarrow> error + nat" where
  "py_index [] v = Inl ValueError"
| "py_index (x # xs) v =
     (if x = v then Inr 0 else (case py_index xs v of Inl e \<Rightarrow> Inl e | Inr i \<Rightarrow> Inr (Suc i)))"

text \<open>
  The strongest day that \<open>load_data\<close> puts in its label: the weekday index and its count, or
  \<open>None\<close> when the label shows a dash.
\<close>

definition strongest_day :: "int list \<Rightarrow> error + (nat \<times> int) option" where
  "strongest_day day_done30 =
     (if list_ex (\<lambda>x. x \<noteq> 0) day_done30
      then
        (case py_max day_done30 of
           Inl e \<Rightarrow> Inl e
         | Inr mx \<Rightarrow>
             (case py_index day_done30 mx of
                Inl e \<Rightarrow> Inl e
              | Inr idx \<Rightarrow> Inr (Some (idx, mx))))
      else Inr None)"

text \<open>
  \<open>load_data\<close> up to the label of the strongest day: the 30 days ending today, aggregated,
  then \<open>strongest_day\<close>.
\<close>

definition load_data_strong_day :: "db \<Rightarrow> date \<Rightarrow> error + (nat \<times> int) option" where
  "load_data_strong_day S today =
     (case date_minus_days today 29 of
        Inl e \<Rightarrow> Inl e
      | Inr start30 \<Rightarrow>
          (case calc_range_stats S start30 today of
             Inl e \<Rightarrow> Inl e
           | Inr (acts30, day_done30) \<Rightarrow> strongest_day day_done30))"

section \<open>Statistics, stated over the days of the range\<close>

text \<open>
  The planned days of an activity in an inclusive range are the days whose weekday is in its
  mask; its done days are the planned days for which the lookup of completions holds 1.
\<close>

definition planned_days :: "int \<Rightarrow> date \<Rightarrow> date \<Rightarrow> int" where
  "planned_days dmask start_d end_d =
     int (length (filter (\<lambda>d. mask_has_day dmask (weekday d)) [start_d..end_d]))"

definition done_days :: "(int \<times> string \<rightharpoonup> int) \<Rightarrow> int \<Rightarrow> int \<Rightarrow> date \<Rightarrow> date \<Rightarrow> int" where
  "done_days done_map aid dmask start_d end_d =
     int (length (filter (\<lambda>d. mask_has_day dmask (weekday d) \<and> done_map (aid, isoformat d) = Some 1)
                    [start_d..end_d]))"

text \<open>The completions of a weekday: over all activities, the done days that fall on it.\<close>

definition weekday_total :: "db \<Rightarrow> date \<Rightarrow> date \<Rightarrow> nat \<Rightarrow> int" where
  "weekday_total S start_d end_d i =
     (\<Sum>a \<leftarrow> activities S.
        int (length (filter (\<lambda>d. weekday d = i \<and> mask_has_day (a_days_mask a) (weekday d)
                \<and> db_bulk_done_map (isoformat start_d) (isoformat end_d) S (a_id a, isoformat d) = Some 1)
              [start_d..end_d])))"

section \<open>The startup check of the store file\<close>


















section \<open>Properties of schedule masks\<close>

lemma mask_has_day_bit: "mask_has_day m i = bit m i"
  by (simp add: mask_has_day_def and_one_eq bit_iff_odd_drop_bit mod_2_eq_odd)

lemma bit_set_mask_day: "bit (set_mask_day m i v) j = (if j = i then v else bit m j)"
  by (auto simp add: set_mask_day_def Let_def bit_or_iff bit_and_iff bit_not_iff bit_exp_iff)

lemma full_week_mask_eq: "full_week_mask = 127"
  by (simp add: full_week_mask_def)

text \<open>
  C5. For every mask \<open>m\<close>, every day index \<open>i\<close> and every boolean: reading bit \<open>i\<close> after
  setting it gives true, after clearing it gives false, setting or clearing bit \<open>i\<close> leaves the
  reading of every other bit \<open>j\<close> as it was, and the full mask has each of the days 0..6.
\<close>

theorem mask_laws:
  "mask_has_day (set_mask_day m i True) i
   \<and> \<not> mask_has_day (set_mask_day m i False) i
   \<and> (j \<noteq> i \<longrightarrow> mask_has_day (set_mask_day m i v) j = mask_has_day m j)
   \<and> (k < 7 \<longrightarrow> mask_has_day full_week_mask k)"
proof -
  have "k < 7 \<Longrightarrow> bit (127::int) k"
  proof -
    assume "k < 7"
    then have "k \<in> {0, 1, 2, 3, 4, 5, 6}" by auto
    then show ?thesis by (auto simp: bit_numeral_iff bit_iff_odd_drop_bit drop_bit_eq_div)
  qed
  then show ?thesis
    by (simp add: mask_has_day_bit bit_set_mask_day full_week_mask_eq)
qed

theorem mask_laws_witness:
  "mask_has_day (set_mask_day 5 1 True) 1
   \<and> \<not> mask_has_day (set_mask_day 5 0 False) 0
   \<and> ((2::nat) \<noteq> 0 \<and> mask_has_day (set_mask_day 5 0 False) 2 = mask_has_day 5 2)
   \<and> ((6::nat) < 7 \<and> mask_has_day full_week_mask 6)"
  using mask_laws [where m = 5 and i = 1 and j = 2 and v = False and k = 6]
    mask_laws [where m = 5 and i = 0 and j = 2 and v = False and k = 6]
  by simp

section \<open>Evaluating the model on the example stores\<close>

text \<open>Equations that let the simplifier run \<open>isoformat\<close> and the queries on concrete input.\<close>

lemma digit_chars:
  "char_of (48::nat) = CHR ''0''" "char_of (49::nat) = CHR ''1''" "char_of (50::nat) = CHR ''2''"
  "char_of (51::nat) = CHR ''3''" "char_of (52::nat) = CHR ''4''" "char_of (53::nat) = CHR ''5''"
  "char_of (54::nat) = CHR ''6''" "char_of (55::nat) = CHR ''7''" "char_of (56::nat) = CHR ''8''"
  "char_of (57::nat) = CHR ''9''"
  by (simp_all add: char_of_def bit_iff_odd_drop_bit drop_bit_eq_div)

lemma digits_2: "digits 2 n = [char_of (48 + n div 10 mod 10), char_of (48 + n mod 10)]"
  by (simp add: numeral_2_eq_2)

lemma digits_4: "digits 4 n = [char_of (48 + n div 1000 mod 10), char_of (48 + n div 100 mod 10),
    char_of (48 + n div 10 mod 10), char_of (48 + n mod 10)]"
proof -
  have e: "(4::nat) = Suc (Suc (Suc (Suc 0)))" by simp
  show ?thesis by (subst e) (simp add: div_mult2_eq [symmetric])
qed

lemma iso_vals:
  "isoformat 738887 = ''2024-01-02''"
  "isoformat 738886 = ''2024-01-01''"
  "isoformat 738885 = ''2023-12-31''"
  "isoformat 738884 = ''2023-12-30''"
  by (simp_all add: isoformat_def ord2ymd_def Let_def days_before_month_def days_in_month_def
      digits_2 digits_4 digit_chars)

lemma demo_list:
  "db_list_activities demo_db = [(1, ''Run'', 1, 127), (2, ''Read'', 0, 5)]"
  by (simp add: db_list_activities_def demo_db_def)

lemma wd: "weekday 738887 = 1" "weekday 738886 = 0" "weekday 738885 = 6" "weekday 738884 = 5"
  by (simp_all add: weekday_def)

lemma demo_completions:
  "completions demo_db = [\<lparr>c_activity_id = 1, c_day = ''2024-01-01'', c_done = 1\<rparr>,
         \<lparr>c_activity_id = 2, c_day = ''2024-01-03'', c_done = 1\<rparr>]"
  by (simp add: demo_db_def)

lemma demo_days:
  "\<not> day_is_success_for_streak demo_db 738887"
  "day_is_success_for_streak demo_db 738886"
  "\<not> day_is_success_for_streak demo_db 738885"
  "\<not> day_is_success_for_streak demo_db 738884"
  by (simp_all add: day_is_success_for_streak_def Let_def demo_list wd iso_vals mask_has_day_def
      db_get_done_def demo_completions drop_bit_eq_div and_one_eq)

lemma mondays: "monday 738887 = 738886" "monday 738886 = 738886" "monday 738885 = 738879"
  "monday 738884 = 738879"
  by (simp_all add: monday_def weekday_def)

lemma upt4: "[0..<4] = [0, 1, 2, 3]" "[0..<3] = [0, 1, 2]" "[0..<2] = [0, Suc 0]"
  "[0..<Suc 0] = [0]"
  by (simp_all add: upt_rec)

lemma demo_budget:
  "over_budget demo_db 738887 1 3"
  "\<not> over_budget demo_db 738887 1 0"
  "\<not> over_budget demo_db 738887 1 1"
  "\<not> over_budget demo_db 738887 1 2"
  by (simp_all add: over_budget_def week_misses_def upt4 demo_days mondays)

lemma demo_names: "map a_name (activities demo_db) = [''Run'', ''Read'']"
  by (simp add: demo_db_def)

lemma strip_vals:
  "strip '' run '' = ''run''" "strip ''  Run '' = ''Run''" "strip ''   '' = []" "strip ''Run'' = ''Run''"
  "strip ''Swim'' = ''Swim''"
  by (simp_all add: strip_def is_space_def)

lemma lower_vals: "map ascii_lower ''Run'' = ''run''" "map ascii_lower ''run'' = ''run''"
  by (simp_all add: ascii_lower_def Let_def char_of_def bit_iff_odd_drop_bit drop_bit_eq_div)

lemma fk_ok_demo: "fk_ok demo_db"
  by (simp add: fk_ok_def demo_db_def)

lemma delete_demo:
  "db_delete_activity 1 demo_db =
     \<lparr>activities = [\<lparr>a_id = 2, a_name = ''Read'', a_mandatory = 0, a_days_mask = 5, a_sort_order = 2\<rparr>],
      completions = [\<lparr>c_activity_id = 2, c_day = ''2024-01-03'', c_done = 1\<rparr>],
      seq = 2\<rparr>"
  by (simp add: db_delete_activity_def demo_db_def)

section \<open>Properties of the streak\<close>

lemma monday_eq: "monday d = d - (d + 6) mod 7"
  by (simp add: monday_def weekday_def)

lemma monday_mono: "d \<le> d' \<Longrightarrow> monday d \<le> monday d'"
  unfolding monday_eq by presburger

lemma monday_in_range: "1 \<le> d \<Longrightarrow> 1 \<le> monday d \<and> monday d \<le> d"
  unfolding monday_eq by presburger

lemma week_misses_split:
  "week_misses S today i =
     prior_misses S today i + (if day_is_success_for_streak S (today - int i) then 0 else 1)"
  by (simp add: week_misses_def prior_misses_def)

lemma prior_misses_reset:
  assumes "0 < i" "monday (today - int i) \<noteq> monday (today - int (i - 1))"
  shows "prior_misses S today i = 0"
proof -
  have "monday (today - int j) \<noteq> monday (today - int i)" if "j < i" for j
  proof -
    from that have "today - int (i - 1) \<le> today - int j" by simp
    then have a: "monday (today - int (i - 1)) \<le> monday (today - int j)" by (rule monday_mono)
    have "today - int i \<le> today - int (i - 1)" by simp
    then have b: "monday (today - int i) \<le> monday (today - int (i - 1))" by (rule monday_mono)
    from a b assms(2) show ?thesis by linarith
  qed
  then show ?thesis by (simp add: prior_misses_def)
qed

lemma prior_misses_same:
  assumes "0 < i" "monday (today - int i) = monday (today - int (i - 1))"
  shows "prior_misses S today i = week_misses S today (i - 1)"
  using assms by (simp add: prior_misses_def week_misses_def)

lemma misses_after_reset:
  "w_misses (if monday (today - int i) \<noteq> w_current_week (walk_at S today i)
             then (walk_at S today i)\<lparr>w_current_week := monday (today - int i), w_misses := 0\<rparr>
             else walk_at S today i) = int (prior_misses S today i)"
proof (cases "i = 0")
  case True
  then show ?thesis by (simp add: walk_at_def prior_misses_def)
next
  case False
  then have "0 < i" by simp
  then show ?thesis
    using prior_misses_reset [of i today S] prior_misses_same [of i today S]
    by (auto simp: walk_at_def)
qed

lemma week_after_reset:
  "w_current_week (if monday (today - int i) \<noteq> w_current_week (walk_at S today i)
             then (walk_at S today i)\<lparr>w_current_week := monday (today - int i), w_misses := 0\<rparr>
             else walk_at S today i) = monday (today - int i)"
  by simp

lemma step_back_ok:
  "2 \<le> w_d st \<Longrightarrow> w_d st \<le> max_ordinal \<Longrightarrow> step_back st = Next (st\<lparr>w_d := w_d st - 1\<rparr>)"
  by (simp add: step_back_def date_minus_days_def date_plus_days_def)

lemma streak_body_continue:
  assumes "\<not> over_budget S today allowed i" "2 \<le> today - int i" "today \<le> max_ordinal"
  shows "streak_body S allowed (walk_at S today i) = Next (walk_at S today (Suc i))"
proof -
  let ?st0 = "walk_at S today i"
  let ?st1 = "if monday (today - int i) \<noteq> w_current_week ?st0
              then ?st0\<lparr>w_current_week := monday (today - int i), w_misses := 0\<rparr> else ?st0"
  have d0: "w_d ?st0 = today - int i" by (simp add: walk_at_def)
  have m: "w_misses ?st1 = int (prior_misses S today i)" by (rule misses_after_reset)
  have w: "w_current_week ?st1 = monday (today - int i)" by (rule week_after_reset)
  have rest: "w_streak ?st1 = int i" "w_d ?st1 = today - int i" "w_iters ?st1 = i"
    by (simp_all add: walk_at_def)
  have st1: "?st1 = \<lparr>w_streak = int i, w_d = today - int i,
      w_current_week = monday (today - int i), w_misses = int (prior_misses S today i), w_iters = i\<rparr>"
    using m w rest by (cases ?st1) simp
  show ?thesis
  proof (cases "day_is_success_for_streak S (today - int i)")
    case True
    then have "week_misses S today i = prior_misses S today i" by (simp add: week_misses_split)
    then show ?thesis
      unfolding streak_body_def Let_def d0 st1 using True assms(2,3)
      by (simp add: step_back_ok walk_at_def)
  next
    case False
    then have wm: "int (week_misses S today i) = int (prior_misses S today i) + 1"
      by (simp add: week_misses_split)
    with False assms(1) have "\<not> allowed < int (prior_misses S today i) + 1"
      by (simp add: over_budget_def)
    then show ?thesis
      unfolding streak_body_def Let_def d0 st1 using False assms(2,3) wm
      by (simp add: step_back_ok walk_at_def)
  qed
qed

lemma streak_body_break:
  assumes "over_budget S today allowed i"
  shows "\<exists>st. streak_body S allowed (walk_at S today i) = Break st
              \<and> w_streak st = int i \<and> w_iters st = Suc i"
proof -
  let ?st0 = "walk_at S today i"
  let ?st1 = "if monday (today - int i) \<noteq> w_current_week ?st0
              then ?st0\<lparr>w_current_week := monday (today - int i), w_misses := 0\<rparr> else ?st0"
  have d0: "w_d ?st0 = today - int i" by (simp add: walk_at_def)
  have m: "w_misses ?st1 = int (prior_misses S today i)" by (rule misses_after_reset)
  have w: "w_current_week ?st1 = monday (today - int i)" by (rule week_after_reset)
  have rest: "w_streak ?st1 = int i" "w_d ?st1 = today - int i" "w_iters ?st1 = i"
    by (simp_all add: walk_at_def)
  have st1: "?st1 = \<lparr>w_streak = int i, w_d = today - int i,
      w_current_week = monday (today - int i), w_misses = int (prior_misses S today i), w_iters = i\<rparr>"
    using m w rest by (cases ?st1) simp
  from assms have f: "\<not> day_is_success_for_streak S (today - int i)"
    and b: "allowed < int (prior_misses S today i) + 1"
    by (simp_all add: over_budget_def week_misses_split split: if_splits)
  show ?thesis
    unfolding streak_body_def Let_def d0 st1 using f b by simp
qed

lemma streak_loop_run:
  assumes "\<forall>j<k. \<not> over_budget S today allowed j" "over_budget S today allowed k"
    "k \<le> 3650" "1 \<le> today - int k" "today \<le> max_ordinal" "i \<le> k"
  shows "\<exists>st. streak_loop S allowed (walk_at S today i) = Inr st
              \<and> w_streak st = int k \<and> w_iters st = Suc k"
  using assms(6)
proof (induction "k - i" arbitrary: i)
  case 0
  then have ik: "i = k" by simp
  from streak_body_break [OF assms(2)] obtain st
    where b: "streak_body S allowed (walk_at S today k) = Break st"
      and c: "w_streak st = int k" "w_iters st = Suc k"
    by blast
  from b have "streak_loop S allowed (walk_at S today k) = Inr st"
    by (subst streak_loop.simps) simp
  with c ik show ?case by simp
next
  case (Suc n)
  then have lt: "i < k" and n: "n = k - Suc i" and le: "Suc i \<le> k" by simp_all
  from lt assms(1) have nb: "\<not> over_budget S today allowed i" by simp
  from lt assms(4) have "2 \<le> today - int i" by simp
  from streak_body_continue [OF nb this assms(5)]
  have body: "streak_body S allowed (walk_at S today i) = Next (walk_at S today (Suc i))" .
  have "\<not> 3650 < w_streak (walk_at S today (Suc i))"
    using le assms(3) by (simp add: walk_at_def)
  with body have "streak_loop S allowed (walk_at S today i)
      = streak_loop S allowed (walk_at S today (Suc i))"
    by (subst streak_loop.simps) simp
  with Suc.hyps(1) [OF n le] show ?case by simp
qed

lemma streak_body_counts:
  "streak_body S allowed st = Next st' \<Longrightarrow>
     w_streak st' = w_streak st + 1 \<and> w_iters st' = Suc (w_iters st)"
  "streak_body S allowed st = Break st' \<Longrightarrow>
     w_streak st' = w_streak st \<and> w_iters st' = Suc (w_iters st)"
  "streak_body S allowed st = Raise e \<Longrightarrow> e = OverflowError"
  by (auto simp: streak_body_def step_back_def date_minus_days_def date_plus_days_def Let_def
      split: if_splits sum.splits)

lemma streak_loop_bound:
  "streak_loop S allowed st = Inr st' \<Longrightarrow> w_streak st \<le> 3650 \<Longrightarrow>
     w_streak st \<le> w_streak st'
     \<and> w_streak st' - w_streak st \<le> int (w_iters st') - int (w_iters st)
     \<and> int (w_iters st') - int (w_iters st) \<le> 3651 - w_streak st"
proof (induction S allowed st rule: streak_loop.induct)
  case (1 S allowed st)
  show ?case
  proof (cases "streak_body S allowed st")
    case (Break b)
    with "1.prems" have "st' = b" by (subst (asm) streak_loop.simps) simp
    with streak_body_counts(2) [OF Break] "1.prems"(2) show ?thesis by simp
  next
    case (Raise e)
    with "1.prems" show ?thesis by (subst (asm) streak_loop.simps) simp
  next
    case (Next n)
    note c = streak_body_counts(1) [OF Next]
    show ?thesis
    proof (cases "3650 < w_streak n")
      case True
      with Next "1.prems" have "st' = n" by (subst (asm) streak_loop.simps) simp
      with c "1.prems"(2) show ?thesis by simp
    next
      case False
      with Next "1.prems" have run: "streak_loop S allowed n = Inr st'"
        by (subst (asm) streak_loop.simps) simp
      from False have "w_streak n \<le> 3650" by simp
      from "1.IH" [OF Next False run this] c show ?thesis by simp
    qed
  qed
qed

lemma streak_loop_error:
  "streak_loop S allowed st = Inl e \<Longrightarrow> e = OverflowError"
proof (induction S allowed st rule: streak_loop.induct)
  case (1 S allowed st)
  show ?case
  proof (cases "streak_body S allowed st")
    case (Break b)
    with "1.prems" show ?thesis by (subst (asm) streak_loop.simps) simp
  next
    case (Raise e')
    with "1.prems" have "e = e'" by (subst (asm) streak_loop.simps) simp
    with streak_body_counts(3) [OF Raise] show ?thesis by simp
  next
    case (Next n)
    show ?thesis
    proof (cases "3650 < w_streak n")
      case True
      with Next "1.prems" show ?thesis by (subst (asm) streak_loop.simps) simp
    next
      case False
      with Next "1.prems" have "streak_loop S allowed n = Inl e"
        by (subst (asm) streak_loop.simps) simp
      from "1.IH" [OF Next False this] show ?thesis .
    qed
  qed
qed

lemma streak_body_all_success:
  assumes "\<And>d. day_is_success_for_streak S d" "2 \<le> w_d st" "w_d st \<le> max_ordinal"
  shows "\<exists>st'. streak_body S allowed st = Next st' \<and> w_d st' = w_d st - 1"
  using assms
  by (simp add: streak_body_def step_back_def date_minus_days_def date_plus_days_def Let_def)

lemma all_success_run:
  assumes ok: "\<And>d. day_is_success_for_streak S d"
  shows "n = nat (3651 - w_streak st) \<Longrightarrow> w_streak st \<le> 3650 \<Longrightarrow> 3652 - w_streak st \<le> w_d st
     \<Longrightarrow> w_d st \<le> max_ordinal \<Longrightarrow>
     \<exists>st'. streak_loop S allowed st = Inr st' \<and> w_streak st' = 3651
        \<and> int (w_iters st') = int (w_iters st) + (3651 - w_streak st)"
proof (induction n arbitrary: st)
  case 0
  then show ?case by simp
next
  case (Suc n)
  from Suc.prems have "2 \<le> w_d st" by simp
  from streak_body_all_success [OF ok this Suc.prems(4)]
  obtain st1 where body: "streak_body S allowed st = Next st1" and d1: "w_d st1 = w_d st - 1"
    by blast
  note c = streak_body_counts(1) [OF body]
  show ?case
  proof (cases "3650 < w_streak st1")
    case True
    with body have "streak_loop S allowed st = Inr st1" by (subst streak_loop.simps) simp
    with True c Suc.prems(2) show ?thesis by simp
  next
    case False
    with body have eq: "streak_loop S allowed st = streak_loop S allowed st1"
      by (subst streak_loop.simps) simp
    have "n = nat (3651 - w_streak st1)" using Suc.prems(1) c by simp
    moreover have "w_streak st1 \<le> 3650" using False by simp
    moreover have "3652 - w_streak st1 \<le> w_d st1" using Suc.prems(3) c d1 by simp
    moreover have "w_d st1 \<le> max_ordinal" using Suc.prems(4) d1 by simp
    ultimately obtain st' where "streak_loop S allowed st1 = Inr st'" "w_streak st' = 3651"
      "int (w_iters st') = int (w_iters st1) + (3651 - w_streak st1)"
      using Suc.IH by blast
    with eq c show ?thesis by simp
  qed
qed

lemma never_scheduled_success: "day_is_success_for_streak never_scheduled_db d"
  by (simp add: day_is_success_for_streak_def never_scheduled_db_def db_list_activities_def
      mask_has_day_def)

lemma never_scheduled_walk: "calc_streak_walk never_scheduled_db 738886 1 = Inr (3651, 3651)"
proof -
  let ?st0 = "\<lparr>w_streak = 0, w_d = 738886, w_current_week = monday 738886,
                 w_misses = 0, w_iters = 0\<rparr>"
  have "\<exists>st'. streak_loop never_scheduled_db 1 ?st0 = Inr st' \<and> w_streak st' = 3651
        \<and> int (w_iters st') = int (w_iters ?st0) + (3651 - w_streak ?st0)"
    by (rule all_success_run [OF never_scheduled_success refl]) (simp_all add: max_ordinal_def)
  then obtain st' where "streak_loop never_scheduled_db 1 ?st0 = Inr st'" "w_streak st' = 3651"
    "w_iters st' = 3651"
    by auto
  moreover have "db_any_mandatory_exists never_scheduled_db"
    by (simp add: db_any_mandatory_exists_def never_scheduled_db_def)
  ultimately show ?thesis by (simp add: calc_streak_walk_def)
qed

lemma demo_any_mandatory: "db_any_mandatory_exists demo_db"
  by (simp add: db_any_mandatory_exists_def demo_db_def)

text \<open>
  C2. Walking back from the reference date, let day \<open>k\<close> be the first day that is unsuccessful
  with more unsuccessful days in its own Monday-aligned week (among the days walked so far)
  than the allowance. Then the walk stops there and the streak is \<open>k\<close>: it counts every
  earlier day, successful or forgiven, and not day \<open>k\<close>. Misses of other weeks do not count
  against day \<open>k\<close>. (The first such day lies within the first 3651 days walked and the walk
  stays within the range of dates.)
\<close>

theorem streak_stops_at_first_over_budget_day:
  assumes "db_any_mandatory_exists S"
    and "over_budget S today allowed k"
    and "\<forall>j<k. \<not> over_budget S today allowed j"
    and "k \<le> 3650" and "1 \<le> today - int k" and "today \<le> max_ordinal"
  shows "calc_streak_upto S today allowed = Inr (int k)"
proof -
  have "walk_at S today 0 = \<lparr>w_streak = 0, w_d = today, w_current_week = monday today,
                 w_misses = 0, w_iters = 0\<rparr>"
    by (simp add: walk_at_def)
  with streak_loop_run [OF assms(3) assms(2) assms(4) assms(5) assms(6), of 0]
  obtain st where "streak_loop S allowed \<lparr>w_streak = 0, w_d = today, w_current_week = monday today,
                 w_misses = 0, w_iters = 0\<rparr> = Inr st" "w_streak st = int k"
    by auto
  with assms(1) show ?thesis
    by (simp add: calc_streak_upto_def calc_streak_walk_def)
qed


theorem streak_stops_at_first_over_budget_day_witness:
  "db_any_mandatory_exists demo_db
   \<and> over_budget demo_db 738887 1 3
   \<and> \<not> over_budget demo_db 738887 1 0
   \<and> \<not> over_budget demo_db 738887 1 1
   \<and> \<not> over_budget demo_db 738887 1 2
   \<and> calc_streak_upto demo_db 738887 1 = Inr 3"
proof -
  have "\<not> over_budget demo_db 738887 1 j" if "j < 3" for j
  proof -
    from that have "j = 0 \<or> j = 1 \<or> j = 2" by arith
    with demo_budget(2-4) show ?thesis by auto
  qed
  then have "\<forall>j<3. \<not> over_budget demo_db 738887 1 j" by simp
  from streak_stops_at_first_over_budget_day [OF demo_any_mandatory demo_budget(1) this]
  have "calc_streak_upto demo_db 738887 1 = Inr (int 3)"
    by (simp add: max_ordinal_def)
  with demo_any_mandatory demo_budget show ?thesis by simp
qed

text \<open>
  C4 (as amended). \<open>calc_streak_upto\<close> returns for every store, reference date and
  allowance (the loop is a total function), with OverflowError as the only error; when it
  returns a streak, it has run its loop body at most 3651 times, and the streak is at most the
  number of iterations.
\<close>

theorem walk_at_most_3651_steps:
  "case calc_streak_walk S today allowed of
     Inl e \<Rightarrow> e = OverflowError
   | Inr (n, k) \<Rightarrow> 0 \<le> n \<and> n \<le> int k \<and> k \<le> 3651"
proof (cases "db_any_mandatory_exists S")
  case False
  then show ?thesis by (simp add: calc_streak_walk_def)
next
  case True
  let ?st0 = "\<lparr>w_streak = 0, w_d = today, w_current_week = monday today,
                 w_misses = 0, w_iters = 0\<rparr>"
  show ?thesis
  proof (cases "streak_loop S allowed ?st0")
    case (Inl e)
    with True streak_loop_error [OF Inl] show ?thesis by (simp add: calc_streak_walk_def)
  next
    case (Inr st)
    from streak_loop_bound [OF Inr] have "0 \<le> w_streak st \<and> w_streak st \<le> int (w_iters st)
        \<and> int (w_iters st) \<le> 3651"
      by simp
    with True Inr show ?thesis by (simp add: calc_streak_walk_def)
  qed
qed


theorem walk_at_most_3651_steps_witness:
  "calc_streak_walk never_scheduled_db 738886 1 = Inr (3651, 3651)
   \<and> (0::int) \<le> 3651 \<and> (3651::int) \<le> int 3651 \<and> (3651::nat) \<le> 3651"
  using walk_at_most_3651_steps [of never_scheduled_db 738886 1] never_scheduled_walk
  by simp

text \<open>
  C4 as stated fails: with a mandatory activity that is scheduled on no weekday, every day
  succeeds, and the walk from 2024-01-01 runs 3651 iterations and returns 3651.
\<close>

theorem walk_takes_3651_steps:
  "calc_streak_walk never_scheduled_db 738886 1 = Inr (3651, 3651) \<and> \<not> (3651 \<le> (3650::nat))"
  using never_scheduled_walk by simp

text \<open>
  C6. When no stored activity has the mandatory flag set, \<open>calc_streak_upto\<close> returns 0,
  whatever the completion records, the reference date and the allowance.
\<close>

theorem no_mandatory_streak_zero:
  assumes "\<forall>a \<in> set (activities S). a_mandatory a \<noteq> 1"
  shows "calc_streak_upto S today allowed = Inr 0"
  using assms
  by (simp add: calc_streak_upto_def calc_streak_walk_def db_any_mandatory_exists_def list_ex_iff)

theorem no_mandatory_streak_zero_witness:
  "calc_streak_upto optional_db 738886 1 = Inr 0"
proof -
  have "\<forall>a \<in> set (activities optional_db). a_mandatory a \<noteq> 1"
    by (simp add: optional_db_def)
  from no_mandatory_streak_zero [OF this] show ?thesis .
qed

section \<open>Properties of the store\<close>

subsection \<open>The foreign key holds in every store the operations build\<close>

lemma fk_ok_same_ids:
  "fk_ok S \<Longrightarrow> map a_id (activities S') = map a_id (activities S)
     \<Longrightarrow> completions S' = completions S \<Longrightarrow> fk_ok S'"
  by (simp only: fk_ok_def)

lemma fk_ok_fresh: "fk_ok db_init_fresh"
  by (simp add: fk_ok_def db_init_fresh_def)

lemma fk_ok_add: "fk_ok S \<Longrightarrow> fk_ok (snd (db_add_activity name0 S))"
  by (auto simp: fk_ok_def db_add_activity_def Let_def list_all_iff)

lemma rename_ids:
  "map (a_id \<circ> (\<lambda>a. if a_id a = aid then a\<lparr>a_name := n\<rparr> else a)) acts = map a_id acts"
  by (induction acts) auto

lemma fk_ok_rename:
  assumes "fk_ok S" "db_rename_activity aid n S = Inr (res, S')"
  shows "fk_ok S'"
proof (rule fk_ok_same_ids [OF assms(1)])
  show "map a_id (activities S') = map a_id (activities S)"
    using assms(2)
    by (auto simp: db_rename_activity_def Let_def rename_ids split: if_splits)
  show "completions S' = completions S"
    using assms(2) by (auto simp: db_rename_activity_def Let_def split: if_splits)
qed

lemma set_orders_ids: "map a_id (set_orders_from i ids acts) = map a_id acts"
  by (induction i ids acts rule: set_orders_from.induct) (simp_all add: comp_def if_distrib cong: if_cong)

lemma fk_ok_set_sort_orders:
  assumes "fk_ok S" "db_set_sort_orders ids S = Inr S'"
  shows "fk_ok S'"
proof (rule fk_ok_same_ids [OF assms(1)])
  show "map a_id (activities S') = map a_id (activities S)"
    using assms(2) by (auto simp: db_set_sort_orders_def set_orders_ids split: if_splits)
  show "completions S' = completions S"
    using assms(2) by (auto simp: db_set_sort_orders_def split: if_splits)
qed

lemma fk_ok_delete: "fk_ok S \<Longrightarrow> fk_ok (db_delete_activity aid S)"
  by (auto simp: fk_ok_def db_delete_activity_def Let_def list_all_iff)

lemma fk_ok_clear: "fk_ok (db_clear_all S)"
  by (simp add: fk_ok_def db_clear_all_def)

lemma update_ids:
  "map (a_id \<circ> (\<lambda>a. if a_id a = aid then a\<lparr>a_mandatory := f a, a_days_mask := g a\<rparr> else a)) acts
     = map a_id acts"
  by (induction acts) auto

lemma fk_ok_update:
  assumes "fk_ok S" "db_update_activity aid m k S = Inr S'"
  shows "fk_ok S'"
proof (rule fk_ok_same_ids [OF assms(1)])
  show "map a_id (activities S') = map a_id (activities S)"
    using assms(2) by (auto simp: db_update_activity_def update_ids split: if_splits)
  show "completions S' = completions S"
    using assms(2) by (auto simp: db_update_activity_def split: if_splits)
qed

lemma fk_ok_set_done: "fk_ok S \<Longrightarrow> db_set_done aid dy dn S = Inr S' \<Longrightarrow> fk_ok S'"
  by (auto simp: fk_ok_def db_set_done_def list_all_iff split: if_splits)

subsection \<open>Adding, renaming and deleting activities\<close>

lemma run_same_name: "same_name_ci ''Run'' '' run ''"
  by (simp only: same_name_ci_def strip_vals lower_vals)

text \<open>
  C1 (as amended). When the trimmed new name is non-empty and equal, character for
  character, to the name of a stored activity, \<open>add_activity\<close> fails with ``exists''
  (DuplicateName) and leaves the store, hence every \<open>sort_order\<close>, unchanged; when the
  trimmed name is empty it fails with ``empty'' (EmptyName), again with the store unchanged.
\<close>

theorem add_activity_rejects:
  "(strip name0 \<noteq> [] \<and> strip name0 \<in> set (map a_name (activities S))
      \<longrightarrow> db_add_activity name0 S = ((False, ''exists''), S))
   \<and> (strip name0 = [] \<longrightarrow> db_add_activity name0 S = ((False, ''empty''), S))"
  by (simp add: db_add_activity_def Let_def)

theorem add_activity_rejects_witness:
  "strip ''  Run '' \<noteq> [] \<and> strip ''  Run '' \<in> set (map a_name (activities demo_db))
   \<and> db_add_activity ''  Run '' demo_db = ((False, ''exists''), demo_db)
   \<and> strip ''   '' = [] \<and> db_add_activity ''   '' demo_db = ((False, ''empty''), demo_db)"
  using add_activity_rejects [of "''  Run ''" demo_db] add_activity_rejects [of "''   ''" demo_db]
  by (simp add: strip_vals demo_names)

text \<open>
  C1 as stated fails: the \<open>UNIQUE\<close> index compares names exactly, so with ``Run'' stored,
  adding `` run '' (equal to it after trimming and case folding) succeeds.
\<close>

theorem add_activity_accepts_other_case:
  "same_name_ci ''Run'' '' run ''
   \<and> ''Run'' \<in> set (map a_name (activities demo_db))
   \<and> fst (db_add_activity '' run '' demo_db) = (True, [])
   \<and> fst (db_add_activity '' run '' demo_db) \<noteq> (False, ''exists'')"
  using run_same_name by (simp add: strip_vals demo_names db_add_activity_def Let_def)




lemma delete_no_rows:
  assumes "fk_ok S"
  shows "\<forall>c \<in> set (completions (db_delete_activity aid S)). c_activity_id c \<noteq> aid"
proof (cases "aid \<in> set (map a_id (activities S))")
  case True
  then have "aid \<in> set (map a_id (filter (\<lambda>a. a_id a = aid) (activities S)))" by auto
  then show ?thesis by (auto simp: db_delete_activity_def Let_def)
next
  case False
  with assms have "\<forall>c \<in> set (completions S). c_activity_id c \<noteq> aid"
    by (auto simp: fk_ok_def list_all_iff)
  then show ?thesis by (auto simp: db_delete_activity_def Let_def)
qed

text \<open>
  C9. In a store whose completion rows all belong to stored activities (which the foreign
  key guarantees for every store built through the operations above), after
  \<open>delete_activity(id)\<close> no completion row has that activity id, and for every range of
  days the dictionary returned by \<open>bulk_completions\<close> has no entry under that id.
\<close>

theorem delete_activity_cascades:
  assumes "fk_ok S"
  shows "(\<forall>c \<in> set (completions (db_delete_activity aid S)). c_activity_id c \<noteq> aid)
         \<and> db_bulk_done_map start_iso end_iso (db_delete_activity aid S) (aid, dy) = None"
proof -
  note rows = delete_no_rows [OF assms, of aid]
  then have "(aid, dy) \<notin> fst ` set (rev (map (\<lambda>c. ((c_activity_id c, c_day c), c_done c))
       (filter (\<lambda>c. start_iso \<le> c_day c \<and> c_day c \<le> end_iso)
          (completions (db_delete_activity aid S)))))"
    by auto
  then have "db_bulk_done_map start_iso end_iso (db_delete_activity aid S) (aid, dy) = None"
    unfolding db_bulk_done_map_def by (simp only: map_of_eq_None_iff not_False_eq_True)
  with rows show ?thesis by simp
qed

theorem delete_activity_cascades_witness:
  "fk_ok demo_db
   \<and> completions (db_delete_activity 1 demo_db)
       = [\<lparr>c_activity_id = 2, c_day = ''2024-01-03'', c_done = 1\<rparr>]
   \<and> db_bulk_done_map ''2024-01-01'' ''2024-01-07'' (db_delete_activity 1 demo_db)
        (1, ''2024-01-01'') = None"
  using delete_activity_cascades [OF fk_ok_demo, of 1 "''2024-01-01''" "''2024-01-07''" "''2024-01-01''"]
    fk_ok_demo delete_demo
  by simp

section \<open>Properties of the statistics\<close>

lemma weekday_lt_7: "weekday d < 7"
  unfolding weekday_def by simp

lemma daterange_ok: "1 \<le> d1 \<Longrightarrow> d2 < max_ordinal \<Longrightarrow> daterange d1 d2 = ([d1..d2], None)"
proof (induction d1 d2 rule: daterange.induct)
  case (1 d1 d2)
  show ?case
  proof (cases "d1 \<le> d2")
    case True
    with "1.prems" have p: "date_plus_days d1 1 = Inr (d1 + 1)"
      by (simp add: date_plus_days_def)
    from "1.IH" [OF True p] "1.prems" have "daterange (d1 + 1) d2 = ([d1 + 1..d2], None)"
      by simp
    with True p show ?thesis
      by (subst daterange.simps) (simp add: upto_rec1)
  next
    case False
    then show ?thesis by (subst daterange.simps) simp
  qed
qed

lemma stats_days_planned:
  "fst (stats_days dm aid dmask ds (p, dn, dd))
     = p + int (length (filter (\<lambda>x. mask_has_day dmask (weekday x)) ds))"
  by (induction ds arbitrary: p dn dd) (auto simp: Let_def)

lemma stats_days_done:
  "fst (snd (stats_days dm aid dmask ds (p, dn, dd)))
     = dn + int (length (filter (\<lambda>x. mask_has_day dmask (weekday x)
                                   \<and> dm (aid, isoformat x) = Some 1) ds))"
  by (induction ds arbitrary: p dn dd) (auto simp: Let_def split: option.splits)

lemma stats_days_length:
  "length (snd (snd (stats_days dm aid dmask ds (p, dn, dd)))) = length dd"
  by (induction ds arbitrary: p dn dd) (auto simp: Let_def)

lemma stats_days_nth:
  "i < length dd \<Longrightarrow> \<forall>x \<in> set ds. weekday x < length dd \<Longrightarrow>
   snd (snd (stats_days dm aid dmask ds (p, dn, dd))) ! i
     = dd ! i + int (length (filter (\<lambda>x. weekday x = i \<and> mask_has_day dmask (weekday x)
                                        \<and> dm (aid, isoformat x) = Some 1) ds))"
  by (induction ds arbitrary: p dn dd) (auto simp: Let_def nth_list_update split: option.splits)

lemma stats_acts_result:
  assumes dr: "daterange start_d end_d = (days, None)"
  shows "length dd = 7 \<Longrightarrow>
    \<exists>dd'. stats_acts dm start_d end_d rows (pa, dd)
        = Inr (pa @ map (\<lambda>(aid, name, mand, dmask).
                      (name,
                       int (length (filter (\<lambda>x. mask_has_day dmask (weekday x)) days)),
                       int (length (filter (\<lambda>x. mask_has_day dmask (weekday x)
                                   \<and> dm (aid, isoformat x) = Some 1) days)))) rows, dd')
      \<and> length dd' = 7
      \<and> (\<forall>i<7. dd' ! i = dd ! i
            + (\<Sum>(aid, name, mand, dmask) \<leftarrow> rows.
                 int (length (filter (\<lambda>x. weekday x = i \<and> mask_has_day dmask (weekday x)
                                        \<and> dm (aid, isoformat x) = Some 1) days))))"
proof (induction rows arbitrary: pa dd)
  case Nil
  then show ?case by simp
next
  case (Cons row rows)
  obtain aid name mand dmask where row: "row = (aid, name, mand, dmask)"
    by (cases row) auto
  let ?r = "stats_days dm aid dmask days (0, 0, dd)"
  let ?dd1 = "snd (snd ?r)"
  have r: "?r = (fst ?r, fst (snd ?r), ?dd1)" by simp
  have len: "length ?dd1 = 7" using Cons.prems by (simp add: stats_days_length)
  have nth: "\<forall>i<7. ?dd1 ! i = dd ! i + int (length (filter (\<lambda>x. weekday x = i
        \<and> mask_has_day dmask (weekday x) \<and> dm (aid, isoformat x) = Some 1) days))"
    using Cons.prems by (simp add: stats_days_nth weekday_lt_7)
  from Cons.IH [OF len, of "pa @ [(name, fst ?r, fst (snd ?r))]"]
  obtain dd' where run: "stats_acts dm start_d end_d rows (pa @ [(name, fst ?r, fst (snd ?r))], ?dd1)
        = Inr ((pa @ [(name, fst ?r, fst (snd ?r))]) @ map (\<lambda>(aid, name, mand, dmask).
                      (name,
                       int (length (filter (\<lambda>x. mask_has_day dmask (weekday x)) days)),
                       int (length (filter (\<lambda>x. mask_has_day dmask (weekday x)
                                   \<and> dm (aid, isoformat x) = Some 1) days)))) rows, dd')"
    and len': "length dd' = 7"
    and nth': "\<forall>i<7. dd' ! i = ?dd1 ! i
            + (\<Sum>(aid, name, mand, dmask) \<leftarrow> rows.
                 int (length (filter (\<lambda>x. weekday x = i \<and> mask_has_day dmask (weekday x)
                                        \<and> dm (aid, isoformat x) = Some 1) days)))"
    by blast
  have "stats_acts dm start_d end_d (row # rows) (pa, dd)
      = stats_acts dm start_d end_d rows (pa @ [(name, fst ?r, fst (snd ?r))], ?dd1)"
    unfolding row by (simp add: dr case_prod_beta del: stats_days.simps)
  with run have "stats_acts dm start_d end_d (row # rows) (pa, dd)
        = Inr (pa @ map (\<lambda>(aid, name, mand, dmask).
                      (name,
                       int (length (filter (\<lambda>x. mask_has_day dmask (weekday x)) days)),
                       int (length (filter (\<lambda>x. mask_has_day dmask (weekday x)
                                   \<and> dm (aid, isoformat x) = Some 1) days)))) (row # rows), dd')"
    by (simp add: row stats_days_planned stats_days_done)
  moreover have "\<forall>i<7. dd' ! i = dd ! i
            + (\<Sum>(aid, name, mand, dmask) \<leftarrow> row # rows.
                 int (length (filter (\<lambda>x. weekday x = i \<and> mask_has_day dmask (weekday x)
                                        \<and> dm (aid, isoformat x) = Some 1) days)))"
    using nth nth' by (simp add: row)
  ultimately show ?case using len' by blast
qed

lemma sum_list_insort_key:
  "sum_list (map f (insort_key k x ys)) = (f x :: int) + sum_list (map f ys)"
  by (induction ys) auto

lemma sum_list_sort_key: "sum_list (map f (sort_key k xs)) = (sum_list (map f xs) :: int)"
  by (induction xs) (simp_all add: sum_list_insort_key)

lemma distinct_names_sorted:
  "distinct (map a_name (activities S)) \<Longrightarrow>
     distinct (map a_name (sort_key (\<lambda>a. (a_sort_order a, map ascii_lower (a_name a))) (activities S)))"
  by (simp add: distinct_map)

lemma calc_range_stats_result:
  assumes "1 \<le> start_d" "end_d < max_ordinal"
  shows "\<exists>dd. calc_range_stats S start_d end_d
      = Inr (map (\<lambda>(aid, name, mand, dmask).
                (name, planned_days dmask start_d end_d,
                 done_days (db_bulk_done_map (isoformat start_d) (isoformat end_d) S) aid dmask
                   start_d end_d))
              (db_list_activities S), dd)
    \<and> length dd = 7
    \<and> (\<forall>i<7. dd ! i = weekday_total S start_d end_d i)"
proof -
  let ?dm = "db_bulk_done_map (isoformat start_d) (isoformat end_d) S"
  have len: "length (replicate 7 (0::int)) = 7" by simp
  from stats_acts_result [OF daterange_ok [OF assms] len, of ?dm "db_list_activities S" "[]"]
  obtain dd where run: "stats_acts ?dm start_d end_d (db_list_activities S) ([], replicate 7 0)
        = Inr ([] @ map (\<lambda>(aid, name, mand, dmask).
                      (name,
                       int (length (filter (\<lambda>x. mask_has_day dmask (weekday x)) [start_d..end_d])),
                       int (length (filter (\<lambda>x. mask_has_day dmask (weekday x)
                                   \<and> ?dm (aid, isoformat x) = Some 1) [start_d..end_d]))))
                 (db_list_activities S), dd)"
    and l: "length dd = 7"
    and n: "\<forall>i<7. dd ! i = replicate 7 0 ! i
            + (\<Sum>(aid, name, mand, dmask) \<leftarrow> db_list_activities S.
                 int (length (filter (\<lambda>x. weekday x = i \<and> mask_has_day dmask (weekday x)
                                        \<and> ?dm (aid, isoformat x) = Some 1) [start_d..end_d])))"
    by blast
  have "dd ! i = weekday_total S start_d end_d i" if "i < 7" for i
  proof -
    from that n have "dd ! i = (\<Sum>(aid, name, mand, dmask) \<leftarrow> db_list_activities S.
                 int (length (filter (\<lambda>x. weekday x = i \<and> mask_has_day dmask (weekday x)
                                        \<and> ?dm (aid, isoformat x) = Some 1) [start_d..end_d])))"
      by simp
    also have "\<dots> = weekday_total S start_d end_d i"
      by (simp add: db_list_activities_def weekday_total_def comp_def sum_list_sort_key)
    finally show ?thesis .
  qed
  with run l show ?thesis
    by (simp add: calc_range_stats_def planned_days_def done_days_def)
qed

lemma done_le_planned: "done_days dm aid dmask s e \<le> planned_days dmask s e"
proof -
  have "length (filter (\<lambda>d. mask_has_day dmask (weekday d) \<and> dm (aid, isoformat d) = Some 1) xs)
      \<le> length (filter (\<lambda>d. mask_has_day dmask (weekday d)) xs)" for xs
    by (induction xs) auto
  then show ?thesis by (simp add: done_days_def planned_days_def)
qed

lemma dict_of_entry:
  assumes "distinct (map fst acts)" "(n, v) \<in> set acts"
  shows "dict_of acts n = Some v"
proof -
  from assms(1) have "distinct (map fst (rev acts))" by (simp add: rev_map [symmetric])
  moreover from assms(2) have "(n, v) \<in> set (rev acts)" by simp
  ultimately show ?thesis unfolding dict_of_def by (rule map_of_is_SomeI)
qed

lemma pct_third: "round_half_even (to_double (to_double (of_int 1 / of_int 3) * 100)) = 33"
  by code_simp

lemma str_le: "''2024-01-01'' \<le> ''2024-01-03''" "''2024-01-01'' \<le> ''2024-01-01''"
  "''2024-01-03'' \<le> ''2024-01-03''" "''2023-12-05'' \<le> ''2024-01-01''"
  by (simp_all add: less_char_def less_eq_char_def)

lemma iso_more: "isoformat 738888 = ''2024-01-03''" "isoformat 738859 = ''2023-12-05''"
  by (simp_all add: isoformat_def ord2ymd_def Let_def days_before_month_def days_in_month_def
      digits_2 digits_4 digit_chars)

lemma wd_more: "weekday 738888 = 2"
  by (simp add: weekday_def)

lemma demo_bulk_week:
  "db_bulk_done_map ''2024-01-01'' ''2024-01-03'' demo_db (1, ''2024-01-01'') = Some 1"
  "db_bulk_done_map ''2024-01-01'' ''2024-01-03'' demo_db (1, ''2024-01-02'') = None"
  "db_bulk_done_map ''2024-01-01'' ''2024-01-03'' demo_db (1, ''2024-01-03'') = None"
  by (simp_all add: db_bulk_done_map_def demo_completions str_le)

lemma demo_bulk_month:
  "db_bulk_done_map ''2023-12-05'' ''2024-01-03'' demo_db (1, ''2024-01-01'') = Some 1"
  by (simp add: db_bulk_done_map_def demo_completions str_le less_char_def less_eq_char_def)

lemma demo_planned: "planned_days 127 738886 738888 = 3"
  by (simp add: planned_days_def wd wd_more mask_has_day_def drop_bit_eq_div and_one_eq)

lemma demo_done:
  "done_days (db_bulk_done_map ''2024-01-01'' ''2024-01-03'' demo_db) 1 127 738886 738888 = 1"
  by (simp add: done_days_def wd wd_more iso_vals iso_more demo_bulk_week mask_has_day_def
      drop_bit_eq_div and_one_eq)

text \<open>
  C7. For an inclusive range of dates (from a valid start date, ending before 9999-12-31) and
  an activity of a store with distinct names, the aggregation returns, and the cells shown
  for the activity are: its planned-day count over the range, its done-day count, and the
  percentage, which is \<open>round(done / planned * 100)\<close> (computed as Python does, in binary
  floating point with \<open>round\<close> to the nearest integer, ties to even) when the planned count
  is positive and 0 otherwise. When the planned count is 0, so is the done count.
\<close>

theorem range_percentage:
  assumes "1 \<le> start_d" and "end_d < max_ordinal"
    and "distinct (map a_name (activities S))" and "a \<in> set (activities S)"
  shows "\<exists>per_act day_done.
     calc_range_stats S start_d end_d = Inr (per_act, day_done)
     \<and> stats_cells (dict_of per_act) (a_name a)
        = (planned_days (a_days_mask a) start_d end_d,
           done_days (db_bulk_done_map (isoformat start_d) (isoformat end_d) S) (a_id a)
             (a_days_mask a) start_d end_d,
           if 0 < planned_days (a_days_mask a) start_d end_d
           then round_half_even (to_double (to_double
                  (of_int (done_days (db_bulk_done_map (isoformat start_d) (isoformat end_d) S)
                     (a_id a) (a_days_mask a) start_d end_d)
                   / of_int (planned_days (a_days_mask a) start_d end_d)) * 100))
           else 0)
     \<and> (planned_days (a_days_mask a) start_d end_d = 0 \<longrightarrow>
          done_days (db_bulk_done_map (isoformat start_d) (isoformat end_d) S) (a_id a)
             (a_days_mask a) start_d end_d = 0)"
proof -
  let ?dm = "db_bulk_done_map (isoformat start_d) (isoformat end_d) S"
  let ?P = "planned_days (a_days_mask a) start_d end_d"
  let ?D = "done_days ?dm (a_id a) (a_days_mask a) start_d end_d"
  let ?g = "\<lambda>(aid, name, mand, dmask).
                (name, planned_days dmask start_d end_d, done_days ?dm aid dmask start_d end_d)"
  let ?per = "map ?g (db_list_activities S)"
  from calc_range_stats_result [OF assms(1,2), of S]
  obtain dd where run: "calc_range_stats S start_d end_d = Inr (?per, dd)" by blast
  have names: "map fst ?per
      = map a_name (sort_key (\<lambda>a. (a_sort_order a, map ascii_lower (a_name a))) (activities S))"
    by (simp add: db_list_activities_def comp_def)
  have d: "distinct (map fst ?per)"
    unfolding names by (rule distinct_names_sorted [OF assms(3)])
  from assms(4) have "(a_id a, a_name a, a_mandatory a, a_days_mask a) \<in> set (db_list_activities S)"
    by (simp add: db_list_activities_def)
  then have "(a_name a, ?P, ?D) \<in> set ?per"
    unfolding set_map by (rule rev_image_eqI) simp
  from dict_of_entry [OF d this] have look: "dict_of ?per (a_name a) = Some (?P, ?D)" .
  have nonneg: "0 \<le> ?P" by (simp add: planned_days_def)
  have le: "?D \<le> ?P" by (rule done_le_planned)
  have dn: "0 \<le> ?D" by (simp add: done_days_def)
  have cells: "stats_cells (dict_of ?per) (a_name a)
      = (?P, ?D, if 0 < ?P then round_half_even (to_double (to_double (of_int ?D / of_int ?P) * 100))
                 else 0)"
    using nonneg by (simp add: stats_cells_def look pct_def float_mul_def float_div_def)
  from le dn have "?P = 0 \<longrightarrow> ?D = 0" by simp
  with run cells show ?thesis by blast
qed

theorem range_percentage_witness:
  "(1::int) \<le> 738886 \<and> 738888 < max_ordinal \<and> distinct (map a_name (activities demo_db))
   \<and> run_row \<in> set (activities demo_db)
   \<and> (\<exists>per_act day_done. calc_range_stats demo_db 738886 738888 = Inr (per_act, day_done)
         \<and> stats_cells (dict_of per_act) ''Run'' = (3, 1, 33))"
proof -
  have a: "(1::int) \<le> 738886" by simp
  have b: "738888 < max_ordinal" by (simp add: max_ordinal_def)
  have c: "distinct (map a_name (activities demo_db))" by (simp add: demo_names)
  have d: "run_row \<in> set (activities demo_db)" by (simp add: run_row_def demo_db_def)
  have e: "a_name run_row = ''Run''" "a_id run_row = 1" "a_days_mask run_row = 127"
    by (simp_all add: run_row_def)
  from range_percentage [OF a b c d]
  have "\<exists>per_act day_done. calc_range_stats demo_db 738886 738888 = Inr (per_act, day_done)
         \<and> stats_cells (dict_of per_act) ''Run'' = (3, 1, 33)"
    unfolding e iso_vals iso_more demo_planned demo_done using pct_third by simp
  with a b c d show ?thesis by simp
qed

text \<open>
  The percentage rounds the floating-point product, not the exact quotient: 23 done days of 40
  planned give \<open>23 / 40 * 100 = 57.49999999999999\<close> in binary64, hence 57, where the exact
  value 57.5 would round to 58.
\<close>

lemma pct_float_example: "pct 40 23 = 57 \<and> round_half_even (100 * 23 / 40) = 58"
  by code_simp

lemma py_index_found:
  "v \<in> set xs \<Longrightarrow>
     \<exists>i. py_index xs v = Inr i \<and> i < length xs \<and> xs ! i = v \<and> (\<forall>j<i. xs ! j \<noteq> v)"
proof (induction xs)
  case Nil
  then show ?case by simp
next
  case (Cons x xs)
  show ?case
  proof (cases "x = v")
    case True
    then show ?thesis by simp
  next
    case False
    with Cons.prems have "v \<in> set xs" by simp
    from Cons.IH [OF this] obtain i where i: "py_index xs v = Inr i" "i < length xs" "xs ! i = v"
      "\<forall>j<i. xs ! j \<noteq> v"
      by blast
    have "\<forall>j<Suc i. (x # xs) ! j \<noteq> v"
    proof (intro allI impI)
      fix j assume "j < Suc i"
      then show "(x # xs) ! j \<noteq> v" using False i(4) by (cases j) auto
    qed
    with False i(1-3) show ?thesis by simp
  qed
qed

lemma strongest_day_none: "\<forall>x \<in> set xs. x = 0 \<Longrightarrow> strongest_day xs = Inr None"
  by (simp add: strongest_day_def list_ex_iff)

lemma strongest_day_some:
  assumes "\<exists>x \<in> set xs. x \<noteq> 0"
  shows "\<exists>idx. strongest_day xs = Inr (Some (idx, xs ! idx)) \<and> idx < length xs
           \<and> (\<forall>j<length xs. xs ! j \<le> xs ! idx) \<and> (\<forall>j<idx. xs ! j < xs ! idx)"
proof -
  from assms obtain y ys where xs: "xs = y # ys" by (cases xs) auto
  have mx: "py_max xs = Inr (Max (set xs))"
    unfolding xs by (simp only: py_max.simps Max.set_eq_fold)
  have "Max (set xs) \<in> set xs" using xs by (intro Max_in) auto
  from py_index_found [OF this] obtain i where i: "py_index xs (Max (set xs)) = Inr i"
    "i < length xs" "xs ! i = Max (set xs)" "\<forall>j<i. xs ! j \<noteq> Max (set xs)"
    by blast
  have le: "xs ! j \<le> xs ! i" if "j < length xs" for j
    using that i(3) by simp
  have lt: "xs ! j < xs ! i" if "j < i" for j
  proof -
    from that i(2) have "j < length xs" by simp
    from le [OF this] i(4) that i(3) show ?thesis by force
  qed
  from assms mx i(1) i(3) have "strongest_day xs = Inr (Some (i, xs ! i))"
    by (simp add: strongest_day_def list_ex_iff)
  with i(2) le lt show ?thesis by blast
qed

lemma member_le_sum_list_int:
  "x \<in> set xs \<Longrightarrow> \<forall>y \<in> set xs. 0 \<le> f y \<Longrightarrow> (f x :: int) \<le> sum_list (map f xs)"
proof (induction xs)
  case Nil
  then show ?case by simp
next
  case (Cons y ys)
  have nn: "0 \<le> sum_list (map f ys)" using Cons.prems(2) by (intro sum_list_nonneg) auto
  show ?case
  proof (cases "x = y")
    case True
    with nn show ?thesis by simp
  next
    case False
    with Cons.prems have "x \<in> set ys" "\<forall>y \<in> set ys. 0 \<le> f y" by auto
    from Cons.IH [OF this] Cons.prems(2) show ?thesis by simp
  qed
qed

lemma weekday_total_pos:
  assumes "a \<in> set (activities S)" "d \<in> set [start_d..end_d]" "weekday d = i"
    "mask_has_day (a_days_mask a) i"
    "db_bulk_done_map (isoformat start_d) (isoformat end_d) S (a_id a, isoformat d) = Some 1"
  shows "0 < weekday_total S start_d end_d i"
proof -
  let ?f = "\<lambda>a. int (length (filter (\<lambda>d. weekday d = i \<and> mask_has_day (a_days_mask a) (weekday d)
                \<and> db_bulk_done_map (isoformat start_d) (isoformat end_d) S (a_id a, isoformat d) = Some 1)
              [start_d..end_d]))"
  from assms(2-5) have "filter (\<lambda>d. weekday d = i \<and> mask_has_day (a_days_mask a) (weekday d)
                \<and> db_bulk_done_map (isoformat start_d) (isoformat end_d) S (a_id a, isoformat d) = Some 1)
              [start_d..end_d] \<noteq> []"
    by (auto simp: filter_empty_conv)
  then have "0 < ?f a" by simp
  moreover have "?f a \<le> sum_list (map ?f (activities S))"
    by (rule member_le_sum_list_int [OF assms(1)]) simp
  ultimately show ?thesis unfolding weekday_total_def by linarith
qed

lemma demo_monday_total: "weekday_total demo_db (738888 - 29) 738888 0 \<noteq> 0"
proof -
  have "0 < weekday_total demo_db 738859 738888 0"
  proof (rule weekday_total_pos [of run_row _ 738886])
    show "run_row \<in> set (activities demo_db)" by (simp add: run_row_def demo_db_def)
    show "738886 \<in> set [738859..738888]" by simp
    show "weekday 738886 = 0" by (simp add: wd)
    show "mask_has_day (a_days_mask run_row) 0" by (simp add: run_row_def mask_has_day_def)
    show "db_bulk_done_map (isoformat 738859) (isoformat 738888) demo_db
            (a_id run_row, isoformat 738886) = Some 1"
      by (simp add: iso_more iso_vals run_row_def demo_bulk_month)
  qed
  then show ?thesis by simp
qed

text \<open>
  C8. Over the 30 days ending today, when every per-weekday count of completions is zero no
  strongest day is reported; otherwise the reported day is a weekday index whose count is the
  maximum of the seven, and every lower index has a strictly smaller count, so that among
  tied maxima the lowest index is chosen. The count reported with it is that maximum.
\<close>

theorem strongest_day_of_window:
  assumes "30 \<le> today" and "today < max_ordinal"
  shows "((\<forall>i<7. weekday_total S (today - 29) today i = 0)
            \<longrightarrow> load_data_strong_day S today = Inr None)
       \<and> ((\<exists>i<7. weekday_total S (today - 29) today i \<noteq> 0)
            \<longrightarrow> (\<exists>idx<7. load_data_strong_day S today
                              = Inr (Some (idx, weekday_total S (today - 29) today idx))
                    \<and> (\<forall>j<7. weekday_total S (today - 29) today j
                               \<le> weekday_total S (today - 29) today idx)
                    \<and> (\<forall>j<idx. weekday_total S (today - 29) today j
                               < weekday_total S (today - 29) today idx)))"
proof -
  from assms have start: "date_minus_days today 29 = Inr (today - 29)"
    by (simp add: date_minus_days_def date_plus_days_def)
  from assms(1) have "1 \<le> today - 29" by simp
  from calc_range_stats_result [OF this assms(2), of S]
  obtain per dd where run: "calc_range_stats S (today - 29) today = Inr (per, dd)"
    and len: "length dd = 7" and tot: "\<forall>i<7. dd ! i = weekday_total S (today - 29) today i"
    by blast
  have ld: "load_data_strong_day S today = strongest_day dd"
    by (simp add: load_data_strong_day_def start run)
  have set_dd: "set dd = {dd ! i | i. i < 7}"
    using len by (auto simp: set_conv_nth)
  have none: "load_data_strong_day S today = Inr None"
    if "\<forall>i<7. weekday_total S (today - 29) today i = 0"
  proof -
    from that tot set_dd have "\<forall>x \<in> set dd. x = 0" by auto
    from strongest_day_none [OF this] ld show ?thesis by simp
  qed
  have some: "\<exists>idx<7. load_data_strong_day S today
                              = Inr (Some (idx, weekday_total S (today - 29) today idx))
                    \<and> (\<forall>j<7. weekday_total S (today - 29) today j
                               \<le> weekday_total S (today - 29) today idx)
                    \<and> (\<forall>j<idx. weekday_total S (today - 29) today j
                               < weekday_total S (today - 29) today idx)"
    if "\<exists>i<7. weekday_total S (today - 29) today i \<noteq> 0"
  proof -
    from that tot set_dd have "\<exists>x \<in> set dd. x \<noteq> 0" by auto
    from strongest_day_some [OF this] obtain idx where s: "strongest_day dd = Inr (Some (idx, dd ! idx))"
      and i7: "idx < 7" and le: "\<forall>j<7. dd ! j \<le> dd ! idx" and lt: "\<forall>j<idx. dd ! j < dd ! idx"
      using len by auto
    from lt i7 tot have "\<forall>j<idx. weekday_total S (today - 29) today j
                               < weekday_total S (today - 29) today idx"
      by auto
    with s i7 le tot ld show ?thesis by auto
  qed
  from none some show ?thesis by blast
qed

theorem strongest_day_of_window_witness:
  "(30::int) \<le> 738888 \<and> 738888 < max_ordinal
   \<and> weekday_total demo_db (738888 - 29) 738888 0 \<noteq> 0
   \<and> (\<exists>idx<7. load_data_strong_day demo_db 738888
                  = Inr (Some (idx, weekday_total demo_db (738888 - 29) 738888 idx))
          \<and> (\<forall>j<7. weekday_total demo_db (738888 - 29) 738888 j
                     \<le> weekday_total demo_db (738888 - 29) 738888 idx)
          \<and> (\<forall>j<idx. weekday_total demo_db (738888 - 29) 738888 j
                     < weekday_total demo_db (738888 - 29) 738888 idx))"
proof -
  have a: "(30::int) \<le> 738888" by simp
  have b: "738888 < max_ordinal" by (simp add: max_ordinal_def)
  have "\<exists>i<7. weekday_total demo_db (738888 - 29) 738888 i \<noteq> 0"
    using demo_monday_total by (intro exI [of _ 0]) simp
  with strongest_day_of_window [OF a b, of demo_db] a b demo_monday_total show ?thesis
    by blast
qed

section \<open>Properties of the startup check\<close>





















end
